theory Spec2Isabelle
  imports Complex_Main "HOL-Library.Product_Lexorder" "HOL-Library.Option_ord" "HOL-Library.Multiset"
begin

section \<open>The hull engine of \<^verbatim>\<open>main.py\<close> (class \<^verbatim>\<open>ConvexHull\<close>)\<close>

text \<open>
  Points are pairs of Python integers (the JSON input \<^verbatim>\<open>[[x1, y1], ...]\<close> with integer
  coordinates, as in the default and example data), so \<^verbatim>\<open>orientation\<close> and the anchor
  selection are exact. \<^verbatim>\<open>math.atan2\<close> and \<^verbatim>\<open>math.sqrt\<close> are functions of the Python
  library, not of this repository: they are a parameter of the model, a record \<open>m\<close> of two
  arbitrary functions giving the double that Python returns (a double is a rational
  number). Nothing is assumed about their values, so equal keys for different directions
  and equal distances for different points are possible, as with the floats. What the
  model fixes is when the conversion of an integer argument to a double raises
  \<^verbatim>\<open>OverflowError\<close>.
\<close>

type_synonym point = "int \<times> int"

datatype error = EmptyInputError | OverflowError

record math =
  math_atan2 :: "int \<Rightarrow> int \<Rightarrow> rat"
  math_sqrt :: "int \<Rightarrow> rat"

subsection \<open>Integer arguments of the float functions\<close>

text \<open>
  Python converts an \<^verbatim>\<open>int\<close> argument to a double, rounding to nearest, ties to even, and
  raises \<^verbatim>\<open>OverflowError\<close> when the rounded value exceeds the largest double: from
  \<open>2^1024 - 2^970\<close> on.
\<close>

definition float_limit :: int where
  "float_limit = 2 ^ 1024 - 2 ^ 970"

definition fits_float :: "int \<Rightarrow> bool" where
  "fits_float n \<longleftrightarrow> \<bar>n\<bar> < float_limit"

text \<open>\<^verbatim>\<open>math.atan2(y, x)\<close> and \<^verbatim>\<open>math.sqrt(n)\<close> on integers.\<close>

definition py_atan2 :: "math \<Rightarrow> int \<Rightarrow> int \<Rightarrow> error + rat" where
  "py_atan2 m y x =
     (if fits_float y \<and> fits_float x then Inr (math_atan2 m y x) else Inl OverflowError)"

definition py_sqrt :: "math \<Rightarrow> int \<Rightarrow> error + rat" where
  "py_sqrt m n = (if fits_float n then Inr (math_sqrt m n) else Inl OverflowError)"

subsection \<open>\<^verbatim>\<open>orientation\<close> and \<^verbatim>\<open>distance\<close>\<close>

text \<open>\<^verbatim>\<open>val = (q[1] - p[1]) * (r[0] - q[0]) - (q[0] - p[0]) * (r[1] - q[1])\<close>\<close>

definition cross_val :: "point \<Rightarrow> point \<Rightarrow> point \<Rightarrow> int" where
  "cross_val p q r = (snd q - snd p) * (fst r - fst q) - (fst q - fst p) * (snd r - snd q)"

text \<open>0: collinear, 1: clockwise, 2: counterclockwise.\<close>

definition orientation :: "point \<Rightarrow> point \<Rightarrow> point \<Rightarrow> nat" where
  "orientation p q r =
     (let val = cross_val p q r in
      if val = 0 then 0 else if val > 0 then 1 else 2)"

text \<open>\<^verbatim>\<open>math.sqrt((p1[0] - p2[0])**2 + (p1[1] - p2[1])**2)\<close>\<close>

definition distance :: "math \<Rightarrow> point \<Rightarrow> point \<Rightarrow> error + rat" where
  "distance m p1 p2 = py_sqrt m ((fst p1 - fst p2)\<^sup>2 + (snd p1 - snd p2)\<^sup>2)"

subsection \<open>The sort key \<^verbatim>\<open>polar_angle\<close>\<close>

text \<open>
  The key is \<open>None\<close> for \<^verbatim>\<open>-math.inf\<close> and \<open>Some\<close> of the double otherwise; \<open>None\<close> is
  below every \<open>Some\<close>, as \<^verbatim>\<open>-inf\<close> is below every value of \<^verbatim>\<open>math.atan2\<close>.
\<close>

definition polar_angle :: "math \<Rightarrow> point \<Rightarrow> point \<Rightarrow> error + rat option" where
  "polar_angle m lowest p =
     (if p = lowest then Inr None
      else case py_atan2 m (snd p - snd lowest) (fst p - fst lowest) of
             Inl e \<Rightarrow> Inl e
           | Inr a \<Rightarrow> Inr (Some a))"

text \<open>
  \<^verbatim>\<open>sorted(points, key=polar_angle)\<close>: the key of every point is computed first, so an
  error of any of them is raised; then the points are sorted by key, stably.
\<close>

definition sorted_by_polar_angle :: "math \<Rightarrow> point \<Rightarrow> point list \<Rightarrow> error + point list" where
  "sorted_by_polar_angle m lowest points =
     (if list_all (\<lambda>p. \<not> isl (polar_angle m lowest p)) points
      then Inr (sort_key (\<lambda>p. projr (polar_angle m lowest p)) points)
      else Inl OverflowError)"

subsection \<open>Anchor selection: \<^verbatim>\<open>min(points, key=lambda p: (p[1], p[0]))\<close>\<close>

text \<open>
  Python's \<^verbatim>\<open>min\<close> keeps the first element whose key is minimal; the keys are pairs,
  compared lexicographically.
\<close>

definition min_key :: "point \<Rightarrow> int \<times> int" where
  "min_key p = (snd p, fst p)"

definition lowest_point :: "point list \<Rightarrow> point" where
  "lowest_point points =
     foldl (\<lambda>best p. if min_key p < min_key best then p else best) (hd points) (tl points)"

subsection \<open>Collapsing collinear points\<close>

text \<open>\<^verbatim>\<open>sorted_points.pop(i)\<close>\<close>

definition pop_at :: "'a list \<Rightarrow> nat \<Rightarrow> 'a list" where
  "pop_at xs i = take i xs @ drop (Suc i) xs"

text \<open>
  The loop \<^verbatim>\<open>while i < len(sorted_points) - 1\<close>, with the index and the list as its state.
  Both distances are computed before they are compared.
\<close>

function collapse_loop :: "math \<Rightarrow> point \<Rightarrow> nat \<Rightarrow> point list \<Rightarrow> error + point list" where
  "collapse_loop m lowest i sp =
     (if Suc i < length sp then
        (if orientation lowest (sp ! i) (sp ! Suc i) = 0 then
           (if isl (distance m lowest (sp ! i)) \<or> isl (distance m lowest (sp ! Suc i))
            then Inl OverflowError
            else if projr (distance m lowest (sp ! i)) < projr (distance m lowest (sp ! Suc i))
            then collapse_loop m lowest i (pop_at sp i)
            else collapse_loop m lowest i (pop_at sp (Suc i)))
         else collapse_loop m lowest (Suc i) sp)
      else Inr sp)"
  by pat_completeness auto
termination
  by (relation "measure (\<lambda>(m, lowest, i, sp). length sp - i)") (auto simp: pop_at_def)

declare collapse_loop.simps [simp del]

subsection \<open>The scan\<close>

text \<open>
  The inner loop
  \<^verbatim>\<open>while len(hull) > 1 and orientation(hull[-2], hull[-1], p) != 2: hull.pop()\<close>.
\<close>

function pop_non_left :: "point list \<Rightarrow> point \<Rightarrow> point list" where
  "pop_non_left stack p =
     (if length stack > 1 \<and> orientation (stack ! (length stack - 2)) (last stack) p \<noteq> 2
      then pop_non_left (butlast stack) p
      else stack)"
  by pat_completeness auto
termination
  by (relation "measure (\<lambda>(stack, p). length stack)") auto

declare pop_non_left.simps [simp del]

text \<open>One round of the \<^verbatim>\<open>for\<close> loop: pop, then \<^verbatim>\<open>hull.append(sorted_points[i])\<close>.\<close>

definition scan_step :: "point list \<Rightarrow> point \<Rightarrow> point list" where
  "scan_step stack p = pop_non_left stack p @ [p]"

definition scan :: "point list \<Rightarrow> point list" where
  "scan sp = foldl scan_step [sp ! 0, sp ! 1] (drop 2 sp)"

subsection \<open>\<^verbatim>\<open>graham_scan\<close> and \<^verbatim>\<open>compute_hull\<close>\<close>

definition graham_scan :: "math \<Rightarrow> point list \<Rightarrow> error + point list" where
  "graham_scan m points =
     (if length points < 3 then Inr points
      else
        let lowest = lowest_point points in
        case sorted_by_polar_angle m lowest points of
          Inl e \<Rightarrow> Inl e
        | Inr sorted_points \<Rightarrow>
            (case collapse_loop m lowest 1 sorted_points of
               Inl e \<Rightarrow> Inl e
             | Inr sorted_points \<Rightarrow>
                 if length sorted_points < 3 then Inr sorted_points
                 else Inr (scan sorted_points)))"

definition compute_hull :: "math \<Rightarrow> point list \<Rightarrow> error + point list" where
  "compute_hull m points =
     (if points = [] then Inl EmptyInputError else graham_scan m points)"

subsection \<open>Values of the float functions\<close>

text \<open>
  The doubles that \<^verbatim>\<open>math.atan2(dy, dx)\<close> and \<^verbatim>\<open>math.sqrt(n)\<close> return on the arguments
  that the evaluations below use, as exact rationals (\<^verbatim>\<open>float.as_integer_ratio\<close>); the
  value 0 elsewhere is never used.
\<close>

definition atan2_table :: "((int \<times> int) \<times> rat) list" where
  "atan2_table =
     [((0, 4), 0),
      ((4, 4), 884279719003555 / 1125899906842624),
      ((4, 0), 884279719003555 / 562949953421312),
      ((2, 2), 884279719003555 / 1125899906842624),
      ((2, 1), 1246538638225297 / 1125899906842624),
      ((0, 3), 0),
      ((4, -1), 2044380892000077 / 1125899906842624),
      ((4, 3), 8352332796509007 / 9007199254740992),
      ((0, 2), 0),
      ((500000001, 1), 7074237743021241 / 4503599627370496),
      ((500000000, 1), 7074237743021241 / 4503599627370496),
      ((1500000001, 3), 7074237743021241 / 4503599627370496),
      ((1000000001, 2), 7074237743021241 / 4503599627370496),
      ((1000000000, 2), 7074237743021241 / 4503599627370496),
      ((0, 9007199254740992), 0),
      ((0, 9007199254740993), 0)]"

definition sqrt_table :: "(int \<times> rat) list" where
  "sqrt_table =
     [(250000000000000001, 500000000),
      (1000000000000000004, 1000000000),
      (81129638414606681695789005144064, 9007199254740992),
      (81129638414606699710187514626049, 9007199254740992)]"

definition python_math :: math where
  "python_math =
     \<lparr>math_atan2 = (\<lambda>dy dx. case map_of atan2_table (dy, dx) of Some a \<Rightarrow> a | None \<Rightarrow> 0),
      math_sqrt = (\<lambda>n. case map_of sqrt_table n of Some a \<Rightarrow> a | None \<Rightarrow> 0)\<rparr>"

subsection \<open>The scan with its stack top first\<close>

text \<open>
  The same loops by recursion on the list, used in the proofs; they are shown equal to the
  loops above (\<open>pop_non_left_structural\<close>, \<open>scan_structural\<close>).
\<close>

fun pop_rev :: "point list \<Rightarrow> point \<Rightarrow> point list" where
  "pop_rev (b # a # s) p = (if orientation a b p \<noteq> 2 then pop_rev (a # s) p else b # a # s)"
| "pop_rev s p = s"

definition scan_rev :: "point list \<Rightarrow> point list \<Rightarrow> point list" where
  "scan_rev s ps = foldl (\<lambda>s p. p # pop_rev s p) s ps"

subsection \<open>Notions of the claims\<close>

text \<open>
  Every three cyclically consecutive vertices of \<open>h\<close>, the wrap-around ones included, turn
  strictly counter-clockwise under \<^verbatim>\<open>orientation\<close>.
\<close>

definition cyclic_ccw :: "point list \<Rightarrow> bool" where
  "cyclic_ccw h =
     list_all
       (\<lambda>i. orientation (h ! i) (h ! ((i + 1) mod length h)) (h ! ((i + 2) mod length h)) = 2)
       [0..<length h]"

text \<open>
  \<open>p\<close> lies on the closed segment from \<open>a\<close> to \<open>b\<close>: collinear with them and inside their
  bounding box.
\<close>

definition on_segment :: "point \<Rightarrow> point \<Rightarrow> point \<Rightarrow> bool" where
  "on_segment a b p \<longleftrightarrow>
     cross_val a b p = 0 \<and>
     min (fst a) (fst b) \<le> fst p \<and> fst p \<le> max (fst a) (fst b) \<and>
     min (snd a) (snd b) \<le> snd p \<and> snd p \<le> max (snd a) (snd b)"

text \<open>
  \<open>p\<close> lies on or inside the figure formed by the hull \<open>h\<close>: the point itself for one
  vertex, the segment for two, and for three or more vertices no edge, the closing one
  included, has \<open>p\<close> strictly on its clockwise side.
\<close>

definition inside_hull :: "point list \<Rightarrow> point \<Rightarrow> bool" where
  "inside_hull h p =
     (if length h = 1 then p = h ! 0
      else if length h = 2 then on_segment (h ! 0) (h ! 1) p
      else 3 \<le> length h \<and>
           list_all (\<lambda>i. orientation (h ! i) (h ! ((i + 1) mod length h)) p \<noteq> 1)
             [0..<length h])"

text \<open>All points of the input are collinear under \<^verbatim>\<open>orientation\<close>.\<close>

definition all_collinear :: "point list \<Rightarrow> bool" where
  "all_collinear ps =
     list_all (\<lambda>p. list_all (\<lambda>q. list_all (\<lambda>r. orientation p q r = 0) ps) ps) ps"

subsection \<open>Inputs with coordinates that are not numbers\<close>

text \<open>
  A coordinate as the JSON input can hold it: an integer or a string. \<^verbatim>\<open>compute_hull\<close> on
  such points: the emptiness test of \<^verbatim>\<open>compute_hull\<close> and the length test of
  \<^verbatim>\<open>graham_scan\<close> do not look at the coordinates; from 3 points on, points whose
  coordinates are all integers are handled as above. The result \<open>None\<close> stands for the one
  case left out of the model, 3 or more points with a string among the coordinates, where
  Python raises \<^verbatim>\<open>TypeError\<close> or \<^verbatim>\<open>OverflowError\<close>, whichever the comparisons and
  subtractions meet first.
\<close>

datatype coord = Num int | Str string

type_synonym raw_point = "coord \<times> coord"

definition numeric_point :: "raw_point \<Rightarrow> point option" where
  "numeric_point p =
     (case p of (Num x, Num y) \<Rightarrow> Some (x, y) | _ \<Rightarrow> None)"

definition raw_of :: "point \<Rightarrow> raw_point" where
  "raw_of p = (Num (fst p), Num (snd p))"

definition compute_hull_raw :: "math \<Rightarrow> raw_point list \<Rightarrow> (error + raw_point list) option" where
  "compute_hull_raw m points =
     (if points = [] then Some (Inl EmptyInputError)
      else if length points < 3 then Some (Inr points)
      else case those (map numeric_point points) of
             Some ps \<Rightarrow> Some (map_sum id (map raw_of) (graham_scan m ps))
           | None \<Rightarrow> None)"

section \<open>Properties\<close>

subsection \<open>The scan and the anchor\<close>

lemma pop_non_left_structural: "pop_non_left stack p = rev (pop_rev (rev stack) p)"
proof (induction stack p rule: pop_non_left.induct)
  case (1 stack p)
  show ?case
  proof (cases "length stack > 1")
    case False
    then have "stack = [] \<or> (\<exists>a. stack = [a])"
      by (cases stack) auto
    then show ?thesis by (subst pop_non_left.simps) auto
  next
    case True
    then obtain s' b where s1: "stack = s' @ [b]"
      by (cases stack rule: rev_cases) auto
    with True obtain s a where s2: "s' = s @ [a]"
      by (cases s' rule: rev_cases) auto
    from s1 s2 have st: "stack = s @ [a, b]" by simp
    then have nth: "stack ! (length stack - 2) = a" "last stack = b" "butlast stack = s @ [a]"
      by (simp_all add: nth_append butlast_append)
    show ?thesis
    proof (cases "orientation a b p \<noteq> 2")
      case o: True
      have "pop_non_left stack p = pop_non_left (butlast stack) p"
        using True o nth by (subst pop_non_left.simps) simp
      also have "\<dots> = rev (pop_rev (rev (butlast stack)) p)"
        using "1.IH" True o nth by simp
      finally show ?thesis using st o nth by simp
    next
      case o: False
      have "pop_non_left stack p = stack"
        using True o nth by (subst pop_non_left.simps) simp
      then show ?thesis using st o by simp
    qed
  qed
qed

lemma scan_rev_simps [simp]:
  "scan_rev s [] = s"
  "scan_rev s (p # ps) = scan_rev (p # pop_rev s p) ps"
  by (simp_all add: scan_rev_def)

lemma foldl_scan_step: "foldl scan_step st ps = rev (scan_rev (rev st) ps)"
  by (induction ps arbitrary: st) (simp_all add: scan_step_def pop_non_left_structural)

lemma scan_structural:
  "scan sp = rev (scan_rev [sp ! 1, sp ! 0] (drop 2 sp))"
  by (simp add: scan_def foldl_scan_step)

lemma set_pop_rev: "set (pop_rev s p) \<subseteq> set s"
  by (induction s p rule: pop_rev.induct) auto

lemma set_scan_rev: "set (scan_rev s ps) \<subseteq> set s \<union> set ps"
proof (induction ps arbitrary: s)
  case Nil
  then show ?case by simp
next
  case (Cons p ps)
  have "set (scan_rev (p # pop_rev s p) ps) \<subseteq> set (p # pop_rev s p) \<union> set ps"
    by (rule Cons.IH)
  also have "\<dots> \<subseteq> set s \<union> set (p # ps)"
    using set_pop_rev[of s p] by auto
  finally show ?case by simp
qed

lemma list_ge2_decomp:
  "2 \<le> length sp \<Longrightarrow> sp = sp ! 0 # sp ! 1 # drop 2 sp"
  by (cases sp; cases "tl sp") auto

lemma set_scan: 
  assumes "2 \<le> length sp" 
  shows "set (scan sp) \<subseteq> set sp"
proof -
  have d: "sp = sp ! 0 # sp ! 1 # drop 2 sp"
    using assms by (rule list_ge2_decomp)
  have "set (scan sp) \<subseteq> set [sp ! 1, sp ! 0] \<union> set (drop 2 sp)"
    unfolding scan_structural set_rev by (rule set_scan_rev)
  also have "\<dots> = set (sp ! 0 # sp ! 1 # drop 2 sp)" by auto
  also have "\<dots> = set sp" using arg_cong[OF d, of set] by simp
  finally show ?thesis .
qed

lemma hd_pop_rev: "s \<noteq> [] \<Longrightarrow> pop_rev s p \<noteq> [] \<and> last (pop_rev s p) = last s"
  by (induction s p rule: pop_rev.induct) auto

lemma last_scan_rev: "s \<noteq> [] \<Longrightarrow> scan_rev s ps \<noteq> [] \<and> last (scan_rev s ps) = last s"
proof (induction ps arbitrary: s)
  case Nil
  then show ?case by simp
next
  case (Cons p ps)
  from Cons.IH[of "p # pop_rev s p"] hd_pop_rev[OF Cons.prems, of p]
  show ?case by simp
qed

lemma hd_scan: "scan sp \<noteq> [] \<and> hd (scan sp) = sp ! 0"
  using last_scan_rev[of "[sp ! 1, sp ! 0]" "drop 2 sp"]
  by (simp add: scan_structural hd_rev)

lemma foldl_min_key_mem:
  "foldl (\<lambda>best p. if min_key p < min_key best then p else best) b ps \<in> insert b (set ps)"
  by (induction ps arbitrary: b) (auto split: if_splits)

lemma foldl_min_key_le_start:
  "min_key (foldl (\<lambda>best p. if min_key p < min_key best then p else best) b ps) \<le> min_key b"
proof (induction ps arbitrary: b)
  case Nil
  then show ?case by simp
next
  case (Cons p ps)
  show ?case
  proof (cases "min_key p < min_key b")
    case True
    then show ?thesis using Cons.IH[of p] by simp
  next
    case False
    then show ?thesis using Cons.IH[of b] by simp
  qed
qed

lemma foldl_min_key_le:
  "q \<in> set ps \<Longrightarrow>
   min_key (foldl (\<lambda>best p. if min_key p < min_key best then p else best) b ps) \<le> min_key q"
proof (induction ps arbitrary: b)
  case Nil
  then show ?case by simp
next
  case (Cons p ps)
  let ?b' = "if min_key p < min_key b then p else b"
  show ?case
  proof (cases "q = p")
    case True
    have "min_key (foldl (\<lambda>best p. if min_key p < min_key best then p else best) ?b' ps)
            \<le> min_key ?b'"
      by (rule foldl_min_key_le_start)
    also have "\<dots> \<le> min_key p" by auto
    finally show ?thesis using True by simp
  next
    case False
    with Cons.prems have "q \<in> set ps" by simp
    from Cons.IH[OF this, of ?b'] show ?thesis by simp
  qed
qed

lemma lowest_point_mem: "points \<noteq> [] \<Longrightarrow> lowest_point points \<in> set points"
  using foldl_min_key_mem[of "hd points" "tl points"]
  by (cases points) (auto simp: lowest_point_def)

lemma lowest_point_le:
  assumes "q \<in> set points"
  shows "min_key (lowest_point points) \<le> min_key q"
proof (cases points)
  case Nil
  with assms show ?thesis by simp
next
  case (Cons a as)
  show ?thesis
  proof (cases "q = a")
    case True
    then show ?thesis
      using foldl_min_key_le_start[of a as] Cons by (simp add: lowest_point_def)
  next
    case False
    then have "q \<in> set as" using assms Cons by simp
    then show ?thesis
      using foldl_min_key_le[of q as a] Cons by (simp add: lowest_point_def)
  qed
qed



lemma set_pop_at: "set (pop_at xs i) \<subseteq> set xs"
  unfolding pop_at_def using set_take_subset[of i xs] set_drop_subset[of "Suc i" xs] by auto

lemma take_pop_at: "i \<le> j \<Longrightarrow> take i (pop_at xs j) = take i xs"
  by (simp add: pop_at_def min_def)

lemma collapse_loop_result:
  "collapse_loop m lowest i sp = Inr r \<Longrightarrow> set r \<subseteq> set sp \<and> take i r = take i sp"
proof (induction m lowest i sp rule: collapse_loop.induct)
  case (1 m lowest i sp)
  show ?case
  proof (cases "Suc i < length sp")
    case False
    with "1.prems" show ?thesis by (subst (asm) collapse_loop.simps) simp
  next
    case len: True
    show ?thesis
    proof (cases "orientation lowest (sp ! i) (sp ! Suc i) = 0")
      case o: True
      have ok: "\<not> (isl (distance m lowest (sp ! i)) \<or> isl (distance m lowest (sp ! Suc i)))"
        using "1.prems" len o by (subst (asm) collapse_loop.simps) (auto split: if_splits)
      show ?thesis
      proof (cases "projr (distance m lowest (sp ! i)) < projr (distance m lowest (sp ! Suc i))")
        case True
        have "collapse_loop m lowest i (pop_at sp i) = Inr r"
          using "1.prems" len o ok True by (subst (asm) collapse_loop.simps) simp
        from "1.IH"(1)[OF len o ok True this] set_pop_at[of sp i] take_pop_at[of i i sp]
        show ?thesis by auto
      next
        case False
        have "collapse_loop m lowest i (pop_at sp (Suc i)) = Inr r"
          using "1.prems" len o ok False by (subst (asm) collapse_loop.simps) simp
        from "1.IH"(2)[OF len o ok False this] set_pop_at[of sp "Suc i"]
          take_pop_at[of i "Suc i" sp]
        show ?thesis by auto
      qed
    next
      case o: False
      have "collapse_loop m lowest (Suc i) sp = Inr r"
        using "1.prems" len o by (subst (asm) collapse_loop.simps) simp
      from "1.IH"(3)[OF len o this] have s: "set r \<subseteq> set sp"
        and t: "take (Suc i) r = take (Suc i) sp" by simp_all
      have "take i r = take i (take (Suc i) r)" by (simp add: min_def)
      also have "\<dots> = take i (take (Suc i) sp)" using t by simp
      also have "\<dots> = take i sp" by (simp add: min_def)
      finally show ?thesis using s by simp
    qed
  qed
qed

lemma collapse_loop_hd:
  assumes "collapse_loop m lowest (Suc 0) sp = Inr r" and "sp \<noteq> []"
  shows "r \<noteq> [] \<and> hd r = hd sp"
proof -
  from collapse_loop_result[OF assms(1)] have "take (Suc 0) r = take (Suc 0) sp" by simp
  with assms(2) show ?thesis by (cases sp; cases r) auto
qed

lemma collapse_loop_error:
  "collapse_loop m lowest i sp = Inl e \<Longrightarrow> e = OverflowError"
proof (induction m lowest i sp rule: collapse_loop.induct)
  case (1 m lowest i sp)
  from "1.prems" have
    "(if Suc i < length sp then
        (if orientation lowest (sp ! i) (sp ! Suc i) = 0 then
           (if isl (distance m lowest (sp ! i)) \<or> isl (distance m lowest (sp ! Suc i))
            then Inl OverflowError
            else if projr (distance m lowest (sp ! i)) < projr (distance m lowest (sp ! Suc i))
            then collapse_loop m lowest i (pop_at sp i)
            else collapse_loop m lowest i (pop_at sp (Suc i)))
         else collapse_loop m lowest (Suc i) sp)
      else Inr sp) = Inl e"
    by (subst (asm) collapse_loop.simps) simp
  then show ?case
    using "1.IH" by (auto split: if_splits)
qed

lemma collapse_loop_returns:
  "\<forall>p\<in>set sp. \<not> isl (distance m lowest p) \<Longrightarrow> \<exists>r. collapse_loop m lowest i sp = Inr r"
proof (induction m lowest i sp rule: collapse_loop.induct)
  case (1 m lowest i sp)
  show ?case
  proof (cases "Suc i < length sp")
    case False
    then show ?thesis by (subst collapse_loop.simps) simp
  next
    case len: True
    then have mem: "sp ! i \<in> set sp" "sp ! Suc i \<in> set sp" by simp_all
    show ?thesis
    proof (cases "orientation lowest (sp ! i) (sp ! Suc i) = 0")
      case o: True
      have ok: "\<not> (isl (distance m lowest (sp ! i)) \<or> isl (distance m lowest (sp ! Suc i)))"
        using "1.prems" mem by blast
      show ?thesis
      proof (cases "projr (distance m lowest (sp ! i)) < projr (distance m lowest (sp ! Suc i))")
        case True
        have "\<forall>p\<in>set (pop_at sp i). \<not> isl (distance m lowest p)"
          using "1.prems" set_pop_at[of sp i] by blast
        from "1.IH"(1)[OF len o ok True this] show ?thesis
          using len o ok True by (subst collapse_loop.simps) simp
      next
        case False
        have "\<forall>p\<in>set (pop_at sp (Suc i)). \<not> isl (distance m lowest p)"
          using "1.prems" set_pop_at[of sp "Suc i"] by blast
        from "1.IH"(2)[OF len o ok False this] show ?thesis
          using len o ok False by (subst collapse_loop.simps) simp
      qed
    next
      case o: False
      from "1.IH"(3)[OF len o "1.prems"] show ?thesis
        using len o by (subst collapse_loop.simps) simp
    qed
  qed
qed

lemma polar_angle_lowest: "polar_angle m L L = Inr None"
  by (simp add: polar_angle_def)

lemma polar_angle_other:
  "p \<noteq> L \<Longrightarrow> \<not> isl (polar_angle m L p) \<Longrightarrow> projr (polar_angle m L p) \<noteq> None"
  by (auto simp: polar_angle_def split: sum.splits)

lemma sorted_by_polar_angle_error:
  "sorted_by_polar_angle m L points = Inl e \<Longrightarrow> e = OverflowError"
  by (auto simp: sorted_by_polar_angle_def split: if_splits)

lemma sorted_by_polar_angle_result:
  assumes "sorted_by_polar_angle m L points = Inr s"
  shows "set s = set points" and "length s = length points" and "mset s = mset points"
    and "L \<in> set points \<Longrightarrow> hd s = L"
proof -
  let ?key = "\<lambda>p. projr (polar_angle m L p)"
  from assms have ok: "\<forall>p\<in>set points. \<not> isl (polar_angle m L p)"
    and s: "s = sort_key ?key points"
    by (auto simp: sorted_by_polar_angle_def list_all_iff split: if_splits)
  show "set s = set points" "length s = length points" "mset s = mset points"
    using s by simp_all
  show "hd s = L" if L: "L \<in> set points"
  proof -
    have "s \<noteq> []" using s L by (metis empty_iff empty_set set_sort)
    then obtain a as where sa: "s = a # as" by (cases s) auto
    have "sorted (map ?key s)" unfolding s by (rule sorted_sort_key)
    moreover have "L \<in> set s" using s L by simp
    ultimately have "?key a \<le> ?key L" unfolding sa by auto
    then have "?key a = None" by (cases "?key a") (simp_all add: polar_angle_lowest)
    moreover have "a \<in> set points" using sa s by (metis list.set_intros(1) set_sort)
    ultimately have "a = L" using polar_angle_other[of a L m] ok by blast
    then show ?thesis using sa by simp
  qed
qed

lemma graham_scan_error: "graham_scan m points = Inl e \<Longrightarrow> e = OverflowError"
  by (auto simp: graham_scan_def Let_def split: if_splits sum.splits
      dest: sorted_by_polar_angle_error collapse_loop_error)

text \<open>The ways \<^verbatim>\<open>graham_scan\<close> returns.\<close>

lemma graham_scan_cases:
  assumes "graham_scan m points = Inr h"
  shows "(length points < 3 \<and> h = points) \<or>
         (3 \<le> length points \<and>
          (\<exists>s c. sorted_by_polar_angle m (lowest_point points) points = Inr s \<and>
                 collapse_loop m (lowest_point points) (Suc 0) s = Inr c \<and>
                 ((length c < 3 \<and> h = c) \<or> (3 \<le> length c \<and> h = scan c))))"
  using assms by (auto simp: graham_scan_def Let_def split: if_splits sum.splits)

lemma graham_scan_subset:
  assumes "graham_scan m points = Inr h"
  shows "set h \<subseteq> set points"
proof -
  consider (small) "h = points"
    | (sc) s c where "sorted_by_polar_angle m (lowest_point points) points = Inr s"
        "collapse_loop m (lowest_point points) (Suc 0) s = Inr c"
        "(length c < 3 \<and> h = c) \<or> (3 \<le> length c \<and> h = scan c)"
    using graham_scan_cases[OF assms] by blast
  then show ?thesis
  proof cases
    case small
    then show ?thesis by simp
  next
    case (sc s c)
    have cs: "set c \<subseteq> set points"
      using collapse_loop_result[OF sc(2)] sorted_by_polar_angle_result(1)[OF sc(1)] by simp
    from sc(3) show ?thesis
    proof
      assume "length c < 3 \<and> h = c"
      with cs show ?thesis by simp
    next
      assume a: "3 \<le> length c \<and> h = scan c"
      then have "set (scan c) \<subseteq> set c" by (intro set_scan) simp
      with a cs show ?thesis by auto
    qed
  qed
qed

lemma graham_scan_hd:
  assumes "graham_scan m points = Inr h" and "points \<noteq> []"
  shows "h \<noteq> []" and "3 \<le> length points \<Longrightarrow> hd h = lowest_point points"
proof -
  let ?L = "lowest_point points"
  consider (small) "length points < 3" "h = points"
    | (sc) s c where "sorted_by_polar_angle m ?L points = Inr s"
        "collapse_loop m ?L (Suc 0) s = Inr c"
        "(length c < 3 \<and> h = c) \<or> (3 \<le> length c \<and> h = scan c)"
    using graham_scan_cases[OF assms(1)] by blast
  then have r: "h \<noteq> [] \<and> (3 \<le> length points \<longrightarrow> hd h = ?L)"
  proof cases
    case small
    with assms(2) show ?thesis by simp
  next
    case (sc s c)
    have "hd s = ?L"
      using sorted_by_polar_angle_result(4)[OF sc(1)] lowest_point_mem[OF assms(2)] by simp
    moreover have "s \<noteq> []"
      using sorted_by_polar_angle_result(2)[OF sc(1)] assms(2) by auto
    ultimately have c0: "c \<noteq> []" "hd c = ?L" using collapse_loop_hd[OF sc(2)] by simp_all
    from sc(3) show ?thesis
    proof
      assume "length c < 3 \<and> h = c"
      with c0 show ?thesis by simp
    next
      assume a: "3 \<le> length c \<and> h = scan c"
      have "c ! 0 = hd c" using c0(1) by (simp add: hd_conv_nth)
      with a show ?thesis using hd_scan[of c] c0 by simp
    qed
  qed
  from r show "h \<noteq> []" by simp
  from r show "hd h = ?L" if "3 \<le> length points" using that by simp
qed

text \<open>
  C3: every point of the sequence returned by \<^verbatim>\<open>compute_hull\<close> is one of the input
  points.
\<close>

theorem hull_points_from_input:
  "compute_hull m points = Inr h \<Longrightarrow> set h \<subseteq> set points"
  using graham_scan_subset[of m points h] by (auto simp: compute_hull_def split: if_splits)

theorem hull_points_from_input_witness:
  "compute_hull python_math [(0,0),(4,0),(4,4),(0,4),(2,2)] = Inr [(0,0),(4,0),(4,4),(0,4)] \<and>
   set [(0,0),(4,0),(4,4),(0,4)] \<subseteq> set [(0,0),(4,0),(4,4),(0,4),(2,2::int)]"
proof -
  have h: "compute_hull python_math [(0,0),(4,0),(4,4),(0,4),(2,2)] =
      Inr [(0,0),(4,0),(4,4),(0,4)]"
    by code_simp
  from hull_points_from_input[OF h] h show ?thesis by simp
qed

text \<open>
  C6: for an input of at least 3 points the returned sequence starts with the anchor, the
  input point of least \<open>y\<close> and, among those, of least \<open>x\<close>.
\<close>

theorem hull_starts_at_anchor:
  assumes "3 \<le> length points" and "compute_hull m points = Inr h"
  shows "h \<noteq> [] \<and> hd h \<in> set points \<and>
         (\<forall>p \<in> set points. snd (hd h) < snd p \<or> (snd (hd h) = snd p \<and> fst (hd h) \<le> fst p))"
proof -
  from assms have ne: "points \<noteq> []" and h: "graham_scan m points = Inr h"
    by (auto simp: compute_hull_def split: if_splits)
  have hd: "hd h = lowest_point points" and "h \<noteq> []"
    using graham_scan_hd[OF h ne] assms(1) by simp_all
  moreover have "hd h \<in> set points" using hd lowest_point_mem[OF ne] by simp
  moreover have "snd (hd h) < snd p \<or> (snd (hd h) = snd p \<and> fst (hd h) \<le> fst p)"
    if "p \<in> set points" for p
    using lowest_point_le[OF that] hd by (auto simp: min_key_def less_eq_prod_def)
  ultimately show ?thesis by blast
qed

theorem hull_starts_at_anchor_witness:
  "3 \<le> length [(2::int,2::int),(4,0),(1,0),(0,4),(4,4)] \<and>
   compute_hull python_math [(2,2),(4,0),(1,0),(0,4),(4,4)] = Inr [(1,0),(4,0),(4,4),(0,4)] \<and>
   hd [(1::int,0::int),(4,0),(4,4),(0,4)] = (1, 0) \<and>
   list_all (\<lambda>p. (0::int) < snd p \<or> (0 = snd p \<and> (1::int) \<le> fst p))
     [(2,2),(4,0),(1,0),(0,4),(4,4)]"
proof -
  have l: "3 \<le> length [(2::int,2::int),(4,0),(1,0),(0,4),(4,4)]" by simp
  have h: "compute_hull python_math [(2,2),(4,0),(1,0),(0,4),(4,4)] =
      Inr [(1,0),(4,0),(4,4),(0,4)]"
    by code_simp
  from hull_starts_at_anchor[OF l h] l h show ?thesis by simp
qed

subsection \<open>Runs on which float keys or float distances tie\<close>

text \<open>
  C1: the claim is that a returned hull of at least 3 vertices turns strictly
  counter-clockwise at every vertex, cyclically. \<^verbatim>\<open>math.atan2\<close> gives the directions
  \<open>(1, 500000001)\<close> and \<open>(1, 500000000)\<close> the same double, the stable sort keeps them in
  input order, the larger angle first, and the scan returns all four points: the
  wrap-around triple \<open>(1, 500000001), (1, 500000000), (0, 0)\<close> is clockwise.
\<close>

theorem tied_angles_hull_not_convex:
  "compute_hull python_math [(0,0),(2,0),(1,500000001),(1,500000000)] =
     Inr [(0,0),(2,0),(1,500000001),(1,500000000)] \<and>
   3 \<le> length [(0::int,0::int),(2,0),(1,500000001),(1,500000000)] \<and>
   \<not> cyclic_ccw [(0,0),(2,0),(1,500000001),(1,500000000)] \<and>
   orientation (1,500000001) (1,500000000) (0,0) = 1"
  by code_simp

text \<open>
  C2: the claim is that every input point lies on or inside the returned hull. With the
  same tie the first point after the anchor is popped although it is a corner of the
  true hull, and the hull returned is a segment that does not contain it.
\<close>

theorem tied_angles_point_outside_hull:
  "compute_hull python_math [(0,0),(1,500000001),(1,500000000)] = Inr [(0,0),(1,500000000)] \<and>
   \<not> inside_hull [(0,0),(1,500000000)] (1,500000001)"
  by code_simp

text \<open>
  C5: the claim is that fewer than 3 points are returned unchanged and that 3 or more
  collinear points give exactly the two extreme points. \<^verbatim>\<open>math.sqrt\<close> gives the distances
  \<open>2^53\<close> and \<open>2^53 + 1\<close> the same double, \<^verbatim>\<open>distance(...) < distance(...)\<close> is false and the
  loop removes the farther point: the extreme \<open>(2^53 + 1, 0)\<close> is not returned.
\<close>

theorem tied_distances_extreme_removed:
  "all_collinear [(0,0),(9007199254740992,0),(9007199254740993,0)] \<and>
   compute_hull python_math [(0,0),(9007199254740992,0),(9007199254740993,0)] =
     Inr [(0,0),(9007199254740992,0)] \<and>
   \<not> on_segment (0,0) (9007199254740992,0) (9007199254740993,0)"
  by code_simp

text \<open>
  C8: the claim is that \<^verbatim>\<open>compute_hull\<close>, run on a hull it has returned, returns the same
  sequence. With tied keys the first run returns five points; in the second run two of
  them, collinear with the anchor, are neighbours and one is removed, and another is
  popped: three points are returned.
\<close>

theorem tied_angles_not_idempotent:
  "compute_hull python_math
     [(0,0),(2,0),(1,500000001),(1,500000000),(3,1500000001),(2,1000000000)] =
     Inr [(0,0),(2,0),(1,500000001),(1,500000000),(2,1000000000)] \<and>
   compute_hull python_math [(0,0),(2,0),(1,500000001),(1,500000000),(2,1000000000)] =
     Inr [(0,0),(2,0),(2,1000000000)]"
  by code_simp

text \<open>
  C10: the claim is that the vertices of a returned hull of at least 3 vertices are
  pairwise distinct. With tied keys the two copies of \<open>(1, 500000000)\<close> are not neighbours
  after the sort, the collapsing loop removes neither and the scan pushes both.
\<close>

theorem tied_angles_vertex_twice:
  "compute_hull python_math
     [(0,0),(1,500000000),(3,1500000001),(2,1000000001),(1,500000000)] =
     Inr [(0,0),(1,500000000),(3,1500000001),(2,1000000001),(1,500000000)] \<and>
   3 \<le> length [(0::int,0::int),(1,500000000),(3,1500000001),(2,1000000001),(1,500000000)] \<and>
   \<not> distinct [(0::int,0::int),(1,500000000),(3,1500000001),(2,1000000001),(1,500000000)]"
  by code_simp

subsection \<open>Errors\<close>

lemma float_limit_bounds: "(2::int) ^ 501 \<le> float_limit" "(2::int) ^ 1003 \<le> float_limit"
  by (simp_all add: float_limit_def)

lemma abs_diff_bound:
  fixes a b :: int
  assumes "\<bar>a\<bar> < 2 ^ 500" and "\<bar>b\<bar> < 2 ^ 500"
  shows "\<bar>a - b\<bar> < 2 ^ 501"
proof -
  have "\<bar>a - b\<bar> \<le> \<bar>a\<bar> + \<bar>b\<bar>" by simp
  also have "\<dots> < 2 ^ 500 + 2 ^ 500" using assms by simp
  also have "\<dots> = (2::int) ^ 501" by simp
  finally show ?thesis .
qed

lemma fits_float_diff:
  assumes "\<bar>a\<bar> < 2 ^ 500" and "\<bar>b\<bar> < 2 ^ 500"
  shows "fits_float (a - b)"
  using abs_diff_bound[OF assms] float_limit_bounds(1) by (simp add: fits_float_def)

lemma square_bound:
  fixes x :: int
  assumes "\<bar>x\<bar> < 2 ^ 501"
  shows "x\<^sup>2 < 2 ^ 1002"
proof -
  have "\<bar>x\<bar>\<^sup>2 < (2 ^ 501)\<^sup>2"
    using assms by (intro power_strict_mono) simp_all
  moreover have "((2::int) ^ 501)\<^sup>2 = 2 ^ 1002" by simp
  ultimately show ?thesis by simp
qed

lemma fits_float_distance:
  assumes "\<bar>a\<bar> < 2 ^ 500" and "\<bar>b\<bar> < 2 ^ 500" and "\<bar>c\<bar> < 2 ^ 500" and "\<bar>d\<bar> < 2 ^ 500"
  shows "fits_float ((a - b)\<^sup>2 + (c - d)\<^sup>2)"
proof -
  have "(a - b)\<^sup>2 < 2 ^ 1002"
    by (rule square_bound[OF abs_diff_bound[OF assms(1,2)]])
  moreover have "(c - d)\<^sup>2 < 2 ^ 1002"
    by (rule square_bound[OF abs_diff_bound[OF assms(3,4)]])
  ultimately have "(a - b)\<^sup>2 + (c - d)\<^sup>2 < 2 ^ 1002 + 2 ^ 1002"
    by (rule add_strict_mono)
  also have "\<dots> = (2::int) ^ 1003" by simp
  finally have "(a - b)\<^sup>2 + (c - d)\<^sup>2 < float_limit"
    using float_limit_bounds(2) by simp
  moreover have "0 \<le> (a - b)\<^sup>2 + (c - d)\<^sup>2" by simp
  ultimately show ?thesis by (simp add: fits_float_def)
qed

lemma graham_scan_returns:
  assumes ne: "points \<noteq> []"
    and bnd: "\<forall>p\<in>set points. \<bar>fst p\<bar> < 2 ^ 500 \<and> \<bar>snd p\<bar> < 2 ^ 500"
  shows "\<exists>h. graham_scan m points = Inr h"
proof -
  let ?L = "lowest_point points"
  have L: "\<bar>fst ?L\<bar> < 2 ^ 500 \<and> \<bar>snd ?L\<bar> < 2 ^ 500"
    using lowest_point_mem[OF ne] bnd by blast
  have keys: "\<not> isl (polar_angle m ?L p)" if "p \<in> set points" for p
  proof -
    from that bnd have p: "\<bar>fst p\<bar> < 2 ^ 500" "\<bar>snd p\<bar> < 2 ^ 500" by auto
    show ?thesis
      using fits_float_diff[OF p(1), of "fst ?L"] fits_float_diff[OF p(2), of "snd ?L"] L
      by (simp add: polar_angle_def py_atan2_def)
  qed
  then have "list_all (\<lambda>p. \<not> isl (polar_angle m ?L p)) points"
    by (simp add: list_all_iff)
  then obtain s where s: "sorted_by_polar_angle m ?L points = Inr s"
    by (simp add: sorted_by_polar_angle_def)
  have "\<not> isl (distance m ?L p)" if "p \<in> set s" for p
  proof -
    from that sorted_by_polar_angle_result(1)[OF s] bnd
    have p: "\<bar>fst p\<bar> < 2 ^ 500" "\<bar>snd p\<bar> < 2 ^ 500" by auto
    show ?thesis
      using fits_float_distance[of "fst ?L" "fst p" "snd ?L" "snd p"] L p
      by (simp add: distance_def py_sqrt_def)
  qed
  then have "\<forall>p\<in>set s. \<not> isl (distance m ?L p)" by blast
  from collapse_loop_returns[OF this, of "Suc 0"] obtain c where
    c: "collapse_loop m ?L (Suc 0) s = Inr c" by blast
  show ?thesis
    using s c by (simp add: graham_scan_def Let_def)
qed

text \<open>
  C4: the claim is that \<^verbatim>\<open>compute_hull\<close> fails with the empty-input error exactly on the
  empty input and returns a hull on every other input. The first half holds. The second
  fails: a coordinate difference or a squared distance outside the range of a double makes
  \<^verbatim>\<open>math.atan2\<close> or \<^verbatim>\<open>math.sqrt\<close> raise \<^verbatim>\<open>OverflowError\<close>, which nothing catches.
\<close>

theorem overflow_returns_no_hull:
  "[(0,0),(10 ^ 400,0),(0,1)] \<noteq> ([] :: point list) \<and>
   compute_hull python_math [(0,0),(10 ^ 400,0),(0,1)] = Inl OverflowError"
  by code_simp

text \<open>
  C4, as amended: the empty-input error (the \<^verbatim>\<open>ValueError\<close> of \<^verbatim>\<open>if not self.points\<close>) is
  raised exactly when there are no points; on a non-empty input the only other outcome
  than a non-empty hull is \<^verbatim>\<open>OverflowError\<close>; and a hull is returned whenever all
  coordinates are below \<open>2^500\<close> in absolute value.
\<close>

theorem compute_hull_errors:
  "(compute_hull m points = Inl EmptyInputError \<longleftrightarrow> points = []) \<and>
   (points \<noteq> [] \<longrightarrow>
      (\<exists>h. compute_hull m points = Inr h \<and> h \<noteq> []) \<or>
      compute_hull m points = Inl OverflowError) \<and>
   (points \<noteq> [] \<and> (\<forall>p\<in>set points. \<bar>fst p\<bar> < 2 ^ 500 \<and> \<bar>snd p\<bar> < 2 ^ 500) \<longrightarrow>
      (\<exists>h. compute_hull m points = Inr h \<and> h \<noteq> []))"
proof (cases "points = []")
  case True
  then show ?thesis by (simp add: compute_hull_def)
next
  case False
  then have c: "compute_hull m points = graham_scan m points"
    by (simp add: compute_hull_def)
  have 1: "compute_hull m points \<noteq> Inl EmptyInputError"
    unfolding c using graham_scan_error[of m points EmptyInputError] by auto
  have 2: "(\<exists>h. compute_hull m points = Inr h \<and> h \<noteq> []) \<or>
      compute_hull m points = Inl OverflowError"
  proof (cases "graham_scan m points")
    case (Inl e)
    with graham_scan_error[of m points e] c show ?thesis by simp
  next
    case (Inr h)
    with graham_scan_hd(1)[OF Inr False] c show ?thesis by simp
  qed
  have 3: "\<exists>h. compute_hull m points = Inr h \<and> h \<noteq> []"
    if "\<forall>p\<in>set points. \<bar>fst p\<bar> < 2 ^ 500 \<and> \<bar>snd p\<bar> < 2 ^ 500"
  proof -
    from graham_scan_returns[OF False that] obtain h where h: "graham_scan m points = Inr h"
      by blast
    with graham_scan_hd(1)[OF h False] c show ?thesis by simp
  qed
  from False 1 2 3 show ?thesis by blast
qed

theorem compute_hull_errors_witness:
  "compute_hull python_math [] = Inl EmptyInputError \<and>
   compute_hull python_math [(5,5)] \<noteq> Inl EmptyInputError \<and>
   (\<exists>h. compute_hull python_math [(5,5)] = Inr h \<and> h \<noteq> [])"
  using compute_hull_errors[of python_math "[]"] compute_hull_errors[of python_math "[(5,5)]"]
  by simp

subsection \<open>Permutations of the input\<close>




text \<open>
  For 3 or more points the vertex sets can differ too, when float keys tie: the
  input \<open>[(0,0),(1,500000001),(1,500000000)]\<close> gives the two vertices \<open>(0,0)\<close> and
  \<open>(1,500000000)\<close>, and its other order gives all three points.
\<close>

lemma tied_angles_permutation_changes_hull:
  "compute_hull python_math [(0,0),(1,500000000),(1,500000001)] =
     Inr [(0,0),(1,500000000),(1,500000001)]"
  by code_simp

subsection \<open>Coordinates that are not numbers\<close>

text \<open>
  C9: the claim is that an input with a non-numeric coordinate makes \<^verbatim>\<open>compute_hull\<close>
  fail fast with an error of the malformed-input kind. The code has no such check: a
  single point with a string coordinate is returned as the hull.
\<close>

theorem string_coordinate_returned:
  "compute_hull_raw python_math [(Str ''abc'', Num 1)] = Some (Inr [(Str ''abc'', Num 1)])"
  by (simp add: compute_hull_raw_def)

lemma those_numeric_raw: "those (map (numeric_point \<circ> raw_of) ps) = Some ps"
  by (induction ps) (simp_all add: numeric_point_def raw_of_def)

text \<open>
  C9, as amended: \<^verbatim>\<open>compute_hull\<close> checks that the input is not empty and nothing else
  about it: the empty-input error is raised exactly on the empty input, a non-empty input
  of fewer than 3 points is returned unchanged whatever its coordinates are, and an input
  of integer points is handled by \<^verbatim>\<open>graham_scan\<close> without any validation step.
\<close>

theorem compute_hull_validates_emptiness_only:
  "(compute_hull_raw m points = Some (Inl EmptyInputError) \<longleftrightarrow> points = []) \<and>
   (points \<noteq> [] \<and> length points < 3 \<longrightarrow> compute_hull_raw m points = Some (Inr points)) \<and>
   compute_hull_raw m (map raw_of ps) = Some (map_sum id (map raw_of) (compute_hull m ps))"
proof -
  have 1: "compute_hull_raw m points = Some (Inl EmptyInputError) \<longleftrightarrow> points = []"
  proof
    assume a: "compute_hull_raw m points = Some (Inl EmptyInputError)"
    show "points = []"
    proof (rule ccontr)
      assume ne: "points \<noteq> []"
      show False
      proof (cases "length points < 3")
        case True
        with a ne show False by (simp add: compute_hull_raw_def)
      next
        case False
        with a ne obtain qs where "map_sum id (map raw_of) (graham_scan m qs) = Inl EmptyInputError"
          by (auto simp: compute_hull_raw_def split: option.splits)
        then have "graham_scan m qs = Inl EmptyInputError"
          by (cases "graham_scan m qs") simp_all
        from graham_scan_error[OF this] show False by simp
      qed
    qed
  qed (simp add: compute_hull_raw_def)
  have 2: "compute_hull_raw m points = Some (Inr points)"
    if "points \<noteq> []" "length points < 3"
    using that by (simp add: compute_hull_raw_def)
  have 3: "compute_hull_raw m (map raw_of ps) =
      Some (map_sum id (map raw_of) (compute_hull m ps))"
  proof (cases "length ps < 3")
    case True
    then show ?thesis
      by (simp add: compute_hull_raw_def compute_hull_def graham_scan_def)
  next
    case False
    then have "ps \<noteq> []" by auto
    with False show ?thesis
      by (simp add: compute_hull_raw_def compute_hull_def those_numeric_raw)
  qed
  from 1 2 3 show ?thesis by blast
qed

theorem compute_hull_validates_emptiness_only_witness:
  "compute_hull_raw python_math [] = Some (Inl EmptyInputError) \<and>
   compute_hull_raw python_math [(Str ''abc'', Num 1), (Num 2, Num 3)] =
     Some (Inr [(Str ''abc'', Num 1), (Num 2, Num 3)]) \<and>
   compute_hull_raw python_math (map raw_of [(5,5)]) =
     Some (map_sum id (map raw_of) (compute_hull python_math [(5,5)]))"
  using compute_hull_validates_emptiness_only[of python_math "[]" "[(5,5)]"]
    compute_hull_validates_emptiness_only
      [of python_math "[(Str ''abc'', Num 1), (Num 2, Num 3)]" "[(5,5)]"]
  by simp

end
